theory Spec2Isabelle
  imports Main "HOL-Library.AList" "HOL-Library.Char_ord" "HOL-Library.List_Lexorder"
    "HOL-Library.Sublist"
begin

section \<open>Errors\<close>

text \<open>
  Go errors as values. \<open>ErrorfW p e\<close> is \<^verbatim>\<open>fmt.Errorf("p: %w", e)\<close> (it wraps \<open>e\<close>),
  \<open>ErrorfV p e\<close> is \<^verbatim>\<open>fmt.Errorf("p: %v", e)\<close> (it only prints \<open>e\<close>: the result has no
  \<^verbatim>\<open>Unwrap\<close>), \<open>ErrorsNew m\<close> is \<^verbatim>\<open>errors.New(m)\<close>. \<open>EOF\<close> is \<^verbatim>\<open>io.EOF\<close>; the other leaves
  are the failures of the libraries the handler calls: a syntax error of the XML decoder,
  a failed \<^verbatim>\<open>strconv.ParseBool\<close>, the decoder's "unknown type" for a field it cannot fill,
  a failed write to the sink, a failed wait for the subprocess, and the run-time panic of a
  nil dereference.
\<close>

datatype error =
    EOF
  | SyntaxError string
  | ParseBoolError string
  | UnknownType string
  | WriteError
  | ExitError string
  | NilDereference
  | ErrorsNew string
  | ErrorfW string error
  | ErrorfV string error

text \<open>\<^verbatim>\<open>errors.Is(err, target)\<close>: follows the \<^verbatim>\<open>%w\<close> chain only.\<close>

fun errors_Is :: "error \<Rightarrow> error \<Rightarrow> bool" where
  "errors_Is (ErrorfW p e) target = (ErrorfW p e = target \<or> errors_Is e target)"
| "errors_Is err target = (err = target)"

section \<open>The XML token stream\<close>

text \<open>
  An attribute is its local name and its value; an element name is its local name (the
  handler reads \<^verbatim>\<open>Name.Local\<close> only). The decoder reads a finite input: the raw tokens the
  subprocess wrote, a place where the bytes are not XML being \<open>Bad\<close>. \<open>stk\<close> is the stack
  of open elements, which \<^verbatim>\<open>Decoder.Token\<close> keeps to return properly nested elements only:
  an end element that does not close the innermost open element, and the end of the input
  inside an open element, are syntax errors; the end of the input outside every element
  is \<^verbatim>\<open>io.EOF\<close>.
\<close>

type_synonym Attr = "string \<times> string"

type_synonym StartElement = "string \<times> Attr list"

datatype xml_token =
    StartElement string "Attr list"
  | EndElement string
  | CharData string
  | Comment string
  | ProcInst string string
  | Directive string

datatype raw = Tok xml_token | Bad string

record decoder =
  input :: "raw list"
  stk :: "string list"

definition NewDecoder :: "raw list \<Rightarrow> decoder" where
  "NewDecoder rs = \<lparr>input = rs, stk = []\<rparr>"

fun Token :: "decoder \<Rightarrow> (error + xml_token) \<times> decoder" where
  "Token d =
     (case input d of
        [] \<Rightarrow> (if stk d = [] then (Inl EOF, d) else (Inl (SyntaxError ''unexpected EOF''), d))
      | Bad m # rest \<Rightarrow> (Inl (SyntaxError m), d\<lparr>input := rest\<rparr>)
      | Tok (StartElement n a) # rest \<Rightarrow>
          (Inr (StartElement n a), d\<lparr>input := rest, stk := n # stk d\<rparr>)
      | Tok (EndElement n) # rest \<Rightarrow>
          (case stk d of
             [] \<Rightarrow> (Inl (SyntaxError (''unexpected end element </'' @ n @ ''>'')), d\<lparr>input := rest\<rparr>)
           | m # s \<Rightarrow>
               if m = n then (Inr (EndElement n), d\<lparr>input := rest, stk := s\<rparr>)
               else (Inl (SyntaxError (''element <'' @ m @ ''> closed by </'' @ n @ ''>'')),
                     d\<lparr>input := rest\<rparr>))
      | Tok t # rest \<Rightarrow> (Inr t, d\<lparr>input := rest\<rparr>))"

lemma Token_shorter:
  "Token d = (Inr t, d') \<Longrightarrow> length (input d') < length (input d)"
  by (auto split: list.splits raw.splits xml_token.splits if_splits)

lemma Token_not_longer:
  "Token d = (r, d') \<Longrightarrow> length (input d') \<le> length (input d)"
  by (auto split: list.splits raw.splits xml_token.splits if_splits)

declare Token.simps [simp del]

section \<open>search\<close>

record xmlQuery =
  NamedStart :: string
  NamedEnd :: string

text \<open>
  The two pointer fields of \<^verbatim>\<open>xmlSearchResult\<close>, \<open>None\<close> for \<^verbatim>\<open>nil\<close>. They are named
  \<open>rNamedStart\<close> and \<open>rNamedEnd\<close> here, the query having the names already.
\<close>

record xmlSearchResult =
  rNamedStart :: "StartElement option"
  rNamedEnd :: "string option"

function search :: "xmlQuery \<Rightarrow> decoder \<Rightarrow> (error + xmlSearchResult) \<times> decoder" where
  "search q decoder =
     (case Token decoder of
        (Inl err, d') \<Rightarrow> (Inl (ErrorfW ''decoder.Token'' err), d')
      | (Inr tok, d') \<Rightarrow>
          (case tok of
             StartElement n a \<Rightarrow>
               if NamedStart q = '''' then search q d'
               else if n = NamedStart q
                 then (Inr \<lparr>rNamedStart = Some (n, a), rNamedEnd = None\<rparr>, d')
                 else search q d'
           | EndElement n \<Rightarrow>
               if NamedEnd q = '''' then search q d'
               else if n = NamedStart q
                 then (Inr \<lparr>rNamedStart = None, rNamedEnd = Some n\<rparr>, d')
                 else search q d'
           | _ \<Rightarrow> search q d'))"
  by pat_completeness auto
termination
  by (relation "measure (\<lambda>(q, d). length (input d))") (auto dest: Token_shorter [OF sym])

declare search.simps [simp del]

section \<open>Decoding one tag element\<close>

text \<open>
  \<^verbatim>\<open>Decoder.Skip\<close>: reads tokens up to the end element that closes the element just opened,
  counting the elements opened on the way.
\<close>

function Skip_from :: "nat \<Rightarrow> decoder \<Rightarrow> error option \<times> decoder" where
  "Skip_from depth d =
     (case Token d of
        (Inl err, d') \<Rightarrow> (Some err, d')
      | (Inr tok, d') \<Rightarrow>
          (case tok of
             StartElement n a \<Rightarrow> Skip_from (Suc depth) d'
           | EndElement n \<Rightarrow> if depth = 0 then (None, d') else Skip_from (depth - 1) d'
           | _ \<Rightarrow> Skip_from depth d'))"
  by pat_completeness auto
termination
  by (relation "measure (\<lambda>(n, d). length (input d))") (auto dest: Token_shorter [OF sym])

declare Skip_from.simps [simp del]

definition Skip :: "decoder \<Rightarrow> error option \<times> decoder" where
  "Skip d = Skip_from 0 d"

text \<open>
  The decoder filling a string from an element: the character data directly inside the
  element, concatenated; elements inside it are skipped.
\<close>

function unmarshal_chardata :: "string \<Rightarrow> decoder \<Rightarrow> (error + string) \<times> decoder" where
  "unmarshal_chardata data d =
     (case Token d of
        (Inl err, d') \<Rightarrow> (Inl err, d')
      | (Inr tok, d') \<Rightarrow>
          (case tok of
             StartElement n a \<Rightarrow>
               (case Skip d' of
                  (Some err, d'') \<Rightarrow> (Inl err, d'')
                | (None, d'') \<Rightarrow> unmarshal_chardata data d'')
           | EndElement n \<Rightarrow> (Inr data, d')
           | CharData c \<Rightarrow> unmarshal_chardata (data @ c) d'
           | _ \<Rightarrow> unmarshal_chardata data d'))"
  by pat_completeness auto

lemma Skip_from_not_longer:
  "Skip_from k d = (r, d') \<Longrightarrow> length (input d') \<le> length (input d)"
proof (induction k d arbitrary: r d' rule: Skip_from.induct)
  case (1 depth d)
  obtain x d1 where T: "Token d = (x, d1)" by (cases "Token d")
  from Token_not_longer [OF T] have le: "length (input d1) \<le> length (input d)" .
  show ?case
  proof (cases x)
    case (Inl e)
    with T "1.prems" le show ?thesis by (simp add: Skip_from.simps [of depth d])
  next
    case (Inr tok)
    with T "1.prems" le "1.IH" [OF T [symmetric] Inr] show ?thesis
      by (cases tok) (auto simp: Skip_from.simps [of depth d] split: if_splits, fastforce+)
  qed
qed

lemma Skip_not_longer:
  "Skip d = (r, d') \<Longrightarrow> length (input d') \<le> length (input d)"
  unfolding Skip_def by (rule Skip_from_not_longer)

termination unmarshal_chardata
  by (relation "measure (\<lambda>(n, d). length (input d))")
     (auto dest!: Token_shorter [OF sym] Skip_not_longer [OF sym])

declare unmarshal_chardata.simps [simp del]

text \<open>
  \<^verbatim>\<open>strings.TrimSpace\<close> on the ASCII white space, and \<^verbatim>\<open>strconv.ParseBool\<close>.
\<close>

definition isSpace :: "char \<Rightarrow> bool" where
  "isSpace c = (c \<in> set [CHR 0x09, CHR 0x0A, CHR 0x0B, CHR 0x0C, CHR 0x0D, CHR 0x20])"

definition TrimSpace :: "string \<Rightarrow> string" where
  "TrimSpace s = rev (dropWhile isSpace (rev (dropWhile isSpace s)))"

definition ParseBool :: "string \<Rightarrow> error + bool" where
  "ParseBool str =
     (if str \<in> set [''1'', ''t'', ''T'', ''TRUE'', ''true'', ''True''] then Inr True
      else if str \<in> set [''0'', ''f'', ''F'', ''FALSE'', ''false'', ''False''] then Inr False
      else Inl (ParseBoolError str))"

record xmlDesc =
  Lang :: string
  Value :: string

text \<open>
  The struct \<^verbatim>\<open>tag\<close> of \<^verbatim>\<open>emitTag\<close>. \<open>JSONDescription\<close> is the Go map, kept as an
  association list with distinct keys (\<open>AList.update\<close> is the map's assignment).
\<close>

record tag =
  Name :: string
  Writable :: bool
  Path :: string
  Group :: string
  Description :: "xmlDesc list"
  JSONDescription :: "(string \<times> string) list"
  Type :: string

definition zero_tag :: tag where
  "zero_tag = \<lparr>Name = '''', Writable = False, Path = '''', Group = '''', Description = [],
     JSONDescription = [], Type = ''''\<rparr>"

text \<open>
  The decoder assigns the attributes of the start element in their order, each to the
  field of its name: \<open>lang\<close> of a \<^verbatim>\<open>desc\<close>; \<open>name\<close>, \<open>writable\<close> and \<open>type\<close> of a \<^verbatim>\<open>tag\<close>.
  A boolean field takes \<^verbatim>\<open>false\<close> from the empty string and \<^verbatim>\<open>ParseBool\<close> of the trimmed
  value otherwise.
\<close>

fun xmlDesc_attrs :: "Attr list \<Rightarrow> xmlDesc \<Rightarrow> xmlDesc" where
  "xmlDesc_attrs [] x = x"
| "xmlDesc_attrs ((n, v) # as) x =
     (if n = ''lang'' then xmlDesc_attrs as (x\<lparr>Lang := v\<rparr>) else xmlDesc_attrs as x)"

fun tag_attrs :: "Attr list \<Rightarrow> tag \<Rightarrow> error + tag" where
  "tag_attrs [] t = Inr t"
| "tag_attrs ((n, v) # as) t =
     (if n = ''name'' then tag_attrs as (t\<lparr>Name := v\<rparr>)
      else if n = ''writable'' then
        (if v = '''' then tag_attrs as (t\<lparr>Writable := False\<rparr>)
         else (case ParseBool (TrimSpace v) of
                 Inl err \<Rightarrow> Inl err
               | Inr b \<Rightarrow> tag_attrs as (t\<lparr>Writable := b\<rparr>)))
      else if n = ''type'' then tag_attrs as (t\<lparr>Type := v\<rparr>)
      else tag_attrs as t)"

definition unmarshal_xmlDesc :: "StartElement \<Rightarrow> decoder \<Rightarrow> (error + xmlDesc) \<times> decoder" where
  "unmarshal_xmlDesc start d =
     (let x = xmlDesc_attrs (snd start) \<lparr>Lang = '''', Value = ''''\<rparr> in
      case unmarshal_chardata '''' d of
        (Inl err, d') \<Rightarrow> (Inl err, d')
      | (Inr data, d') \<Rightarrow> (Inr (x\<lparr>Value := data\<rparr>), d'))"

text \<open>
  The children of a \<^verbatim>\<open>tag\<close> element, by the fields of the struct: a \<^verbatim>\<open>desc\<close> is appended to
  \<open>Description\<close>; \<^verbatim>\<open>Path\<close> and \<^verbatim>\<open>Group\<close> (fields with no \<^verbatim>\<open>xml\<close> tag take the element of the
  field's name) are filled as strings; \<^verbatim>\<open>JSONDescription\<close> is a map, which the decoder
  refuses; any other element is skipped. Character data and comments of the element are
  dropped, the struct having no field for them.
\<close>

function unmarshal_tag :: "tag \<Rightarrow> decoder \<Rightarrow> (error + tag) \<times> decoder" where
  "unmarshal_tag t d =
     (case Token d of
        (Inl err, d') \<Rightarrow> (Inl err, d')
      | (Inr tok, d') \<Rightarrow>
          (case tok of
             StartElement n a \<Rightarrow>
               if n = ''Path'' then
                 (case unmarshal_chardata '''' d' of
                    (Inl err, d'') \<Rightarrow> (Inl err, d'')
                  | (Inr data, d'') \<Rightarrow> unmarshal_tag (t\<lparr>Path := data\<rparr>) d'')
               else if n = ''Group'' then
                 (case unmarshal_chardata '''' d' of
                    (Inl err, d'') \<Rightarrow> (Inl err, d'')
                  | (Inr data, d'') \<Rightarrow> unmarshal_tag (t\<lparr>Group := data\<rparr>) d'')
               else if n = ''desc'' then
                 (case unmarshal_xmlDesc (n, a) d' of
                    (Inl err, d'') \<Rightarrow> (Inl err, d'')
                  | (Inr x, d'') \<Rightarrow> unmarshal_tag (t\<lparr>Description := Description t @ [x]\<rparr>) d'')
               else if n = ''JSONDescription'' then
                 (Inl (UnknownType ''map[string]string''), d')
               else
                 (case Skip d' of
                    (Some err, d'') \<Rightarrow> (Inl err, d'')
                  | (None, d'') \<Rightarrow> unmarshal_tag t d'')
           | EndElement n \<Rightarrow> (Inr t, d')
           | _ \<Rightarrow> unmarshal_tag t d'))"
  by pat_completeness auto

lemma unmarshal_chardata_not_longer:
  "unmarshal_chardata data d = (r, d') \<Longrightarrow> length (input d') \<le> length (input d)"
proof (induction data d arbitrary: r d' rule: unmarshal_chardata.induct)
  case (1 data d)
  obtain x d1 where T: "Token d = (x, d1)" by (cases "Token d")
  from Token_not_longer [OF T] have le: "length (input d1) \<le> length (input d)" .
  show ?case
  proof (cases x)
    case (Inl e)
    with T "1.prems" le show ?thesis by (simp add: unmarshal_chardata.simps [of data d])
  next
    case (Inr tok)
    show ?thesis
    proof (cases tok)
      case (StartElement n a)
      obtain y d2 where S: "Skip d1 = (y, d2)" by (cases "Skip d1")
      from Skip_not_longer [OF S] le have le2: "length (input d2) \<le> length (input d)" by simp
      show ?thesis
      proof (cases y)
        case None
        from "1.prems" T Inr StartElement S None
        have "unmarshal_chardata data d2 = (r, d')"
          by (simp add: unmarshal_chardata.simps [of data d])
        from "1.IH"(1) [OF T [symmetric] Inr StartElement S [symmetric] None this] le2
        show ?thesis by simp
      next
        case (Some e)
        with "1.prems" T Inr StartElement S le2 show ?thesis
          by (simp add: unmarshal_chardata.simps [of data d])
      qed
    next
      case (EndElement n)
      with "1.prems" T Inr le show ?thesis by (simp add: unmarshal_chardata.simps [of data d])
    next
      case (CharData c)
      with "1.prems" T Inr have "unmarshal_chardata (data @ c) d1 = (r, d')"
        by (simp add: unmarshal_chardata.simps [of data d])
      from "1.IH"(2) [OF T [symmetric] Inr CharData this] le show ?thesis by simp
    next
      case (Comment c)
      with "1.prems" T Inr have "unmarshal_chardata data d1 = (r, d')"
        by (simp add: unmarshal_chardata.simps [of data d])
      from "1.IH"(3) [OF T [symmetric] Inr Comment this] le show ?thesis by simp
    next
      case (ProcInst a b)
      with "1.prems" T Inr have "unmarshal_chardata data d1 = (r, d')"
        by (simp add: unmarshal_chardata.simps [of data d])
      from "1.IH"(4) [OF T [symmetric] Inr ProcInst this] le show ?thesis by simp
    next
      case (Directive c)
      with "1.prems" T Inr have "unmarshal_chardata data d1 = (r, d')"
        by (simp add: unmarshal_chardata.simps [of data d])
      from "1.IH"(5) [OF T [symmetric] Inr Directive this] le show ?thesis by simp
    qed
  qed
qed

lemma unmarshal_xmlDesc_not_longer:
  "unmarshal_xmlDesc start d = (r, d') \<Longrightarrow> length (input d') \<le> length (input d)"
  by (auto simp: unmarshal_xmlDesc_def Let_def split: prod.splits sum.splits
      dest: unmarshal_chardata_not_longer)

termination unmarshal_tag
  by (relation "measure (\<lambda>(n, d). length (input d))")
     (auto dest!: Token_shorter [OF sym] Skip_not_longer [OF sym]
        unmarshal_chardata_not_longer [OF sym] unmarshal_xmlDesc_not_longer [OF sym])

declare unmarshal_tag.simps [simp del]

text \<open>
  \<^verbatim>\<open>Decoder.DecodeElement(&tag, se)\<close>: the attributes of \<open>se\<close> first (a value of \<open>writable\<close>
  that is no boolean fails before any token is read), then the children.
\<close>

definition DecodeElement :: "StartElement \<Rightarrow> decoder \<Rightarrow> (error + tag) \<times> decoder" where
  "DecodeElement se d =
     (case tag_attrs (snd se) zero_tag of
        Inl err \<Rightarrow> (Inl err, d)
      | Inr t \<Rightarrow> unmarshal_tag t d)"

section \<open>The sink and the JSON encoder\<close>

text \<open>
  The sink \<^verbatim>\<open>w\<close> is written to by \<^verbatim>\<open>s.Writer.Write\<close> (bytes) and by \<^verbatim>\<open>s.Encoder.Encode\<close>
  (a struct, marshalled and followed by a newline, in one write); the encoder was made
  over the same \<^verbatim>\<open>w\<close>. \<open>written\<close> lists the writes that succeeded, in order, an encoded
  struct kept as the struct; \<open>sink_bytes\<close> is what the sink then holds. \<open>budget\<close> says how
  the sink fails: \<open>None\<close> never, \<open>Some n\<close> from its write number \<open>n\<close> on (counting from
  zero), a failed write leaving nothing behind.
\<close>

datatype chunk = Bytes string | Record tag

record writer =
  written :: "chunk list"
  budget :: "nat option"

definition put :: "chunk \<Rightarrow> writer \<Rightarrow> error option \<times> writer" where
  "put c w =
     (case budget w of
        None \<Rightarrow> (None, w\<lparr>written := written w @ [c]\<rparr>)
      | Some 0 \<Rightarrow> (Some WriteError, w)
      | Some (Suc n) \<Rightarrow> (None, w\<lparr>written := written w @ [c], budget := Some n\<rparr>))"

definition Write :: "string \<Rightarrow> writer \<Rightarrow> error option \<times> writer" where
  "Write b w = put (Bytes b) w"

definition Encode :: "tag \<Rightarrow> writer \<Rightarrow> error option \<times> writer" where
  "Encode t w = put (Record t) w"

text \<open>
  \<^verbatim>\<open>encoding/json\<close> on a string, with the encoder's default HTML escaping: the quote and the
  backslash take a backslash; newline, carriage return and tab are \<^verbatim>\<open>\n\<close>, \<^verbatim>\<open>\r\<close>, \<^verbatim>\<open>\t\<close>; the
  other bytes below \<^verbatim>\<open>0x20\<close> and \<^verbatim>\<open><\<close>, \<^verbatim>\<open>>\<close>, \<^verbatim>\<open>&\<close> are \<^verbatim>\<open>\u00XX\<close>; every other byte is copied
  (for the bytes from \<^verbatim>\<open>0x80\<close> on this is the encoder on valid UTF-8 other than U+2028 and
  U+2029).
\<close>

definition hex :: "nat \<Rightarrow> char" where
  "hex n = ''0123456789abcdef'' ! (n mod 16)"

definition json_escape :: "char \<Rightarrow> string" where
  "json_escape c =
     (if c = CHR 0x22 \<or> c = CHR 0x5C then [CHR 0x5C, c]
      else if c = CHR 0x0A then [CHR 0x5C, CHR ''n'']
      else if c = CHR 0x0D then [CHR 0x5C, CHR ''r'']
      else if c = CHR 0x09 then [CHR 0x5C, CHR ''t'']
      else if (of_char c :: nat) < 32 \<or> c = CHR ''<'' \<or> c = CHR ''>'' \<or> c = CHR ''&''
        then [CHR 0x5C, CHR ''u'', CHR ''0'', CHR ''0'', hex (of_char c div 16), hex (of_char c)]
      else [c])"

definition json_string :: "string \<Rightarrow> string" where
  "json_string s = [CHR 0x22] @ concat (map json_escape s) @ [CHR 0x22]"

fun Join :: "string list \<Rightarrow> string \<Rightarrow> string" where
  "Join [] sep = ''''"
| "Join [x] sep = x"
| "Join (x # y # ys) sep = x @ sep @ Join (y # ys) sep"

text \<open>A map is encoded as an object with its keys sorted as strings.\<close>

definition json_map :: "(string \<times> string) list \<Rightarrow> string" where
  "json_map m =
     ''{'' @ Join (map (\<lambda>(k, v). json_string k @ '':'' @ json_string v) (sort_key fst m)) '','' @ ''}''"

text \<open>
  The struct \<^verbatim>\<open>tag\<close> is encoded by its \<^verbatim>\<open>json\<close> tags, in the order of its fields: \<open>Name\<close> and
  \<open>Description\<close> have the tag \<^verbatim>\<open>-\<close> and are left out.
\<close>

definition Marshal :: "tag \<Rightarrow> string" where
  \<open>Marshal t =
     ''{"writable":'' @ (if Writable t then ''true'' else ''false'') @
     '',"path":'' @ json_string (Path t) @
     '',"group":'' @ json_string (Group t) @
     '',"description":'' @ json_map (JSONDescription t) @
     '',"type":'' @ json_string (Type t) @ ''}''\<close>

fun chunk_bytes :: "chunk \<Rightarrow> string" where
  "chunk_bytes (Bytes b) = b"
| "chunk_bytes (Record t) = Marshal t @ [CHR 0x0A]"

definition sink_bytes :: "writer \<Rightarrow> string" where
  "sink_bytes w = concat (map chunk_bytes (written w))"

section \<open>The streamer\<close>

record streamer =
  Decoder :: decoder
  Writer :: writer

definition attributeByLocalName :: "string \<Rightarrow> StartElement \<Rightarrow> string \<times> bool" where
  "attributeByLocalName name se =
     (case find (\<lambda>attr. fst attr = name) (snd se) of
        Some attr \<Rightarrow> (snd attr, True)
      | None \<Rightarrow> ('''', False))"

definition emitProlog :: "streamer \<Rightarrow> error option \<times> streamer" where
  \<open>emitProlog s =
     (case Write ''{"tags": ['' (Writer s) of
        (Some err, w) \<Rightarrow> (Some (ErrorfW ''s.Writer.Write'' err), s\<lparr>Writer := w\<rparr>)
      | (None, w) \<Rightarrow> (None, s\<lparr>Writer := w\<rparr>))\<close>

definition emitEpilog :: "streamer \<Rightarrow> error option \<times> streamer" where
  "emitEpilog s =
     (case Write '']}'' (Writer s) of
        (Some err, w) \<Rightarrow> (Some (ErrorfW ''s.Writer.Write'' err), s\<lparr>Writer := w\<rparr>)
      | (None, w) \<Rightarrow> (None, s\<lparr>Writer := w\<rparr>))"

definition emitTag :: "string \<Rightarrow> StartElement \<Rightarrow> streamer \<Rightarrow> error option \<times> streamer" where
  "emitTag tableName se s =
     (case DecodeElement se (Decoder s) of
        (Inl err, d) \<Rightarrow> (Some (ErrorfW ''s.Decoder.DecodeElement'' err), s\<lparr>Decoder := d\<rparr>)
      | (Inr tag0, d) \<Rightarrow>
          (let tag1 = tag0\<lparr>Path := tableName @ '':'' @ Name tag0\<rparr>;
               tag2 = tag1\<lparr>Group := tableName\<rparr>;
               tag3 = tag2\<lparr>JSONDescription :=
                        fold (\<lambda>d m. AList.update (Lang d) (Value d) m) (Description tag2) []\<rparr>
           in case Encode tag3 (Writer s) of
                (Some err, w) \<Rightarrow>
                  (Some (ErrorfW ''s.Encoder.Encode'' err), s\<lparr>Decoder := d, Writer := w\<rparr>)
              | (None, w) \<Rightarrow> (None, s\<lparr>Decoder := d, Writer := w\<rparr>)))"

lemma search_shorter:
  "search q d = (Inr res, d') \<Longrightarrow> length (input d') < length (input d)"
proof (induction "length (input d)" arbitrary: d rule: less_induct)
  case less
  obtain x d1 where T: "Token d = (x, d1)" by (cases "Token d")
  show ?case
  proof (cases x)
    case (Inl e)
    with T less.prems show ?thesis by (simp add: search.simps [of q d])
  next
    case (Inr tok)
    from Token_shorter T Inr have lt: "length (input d1) < length (input d)" by blast
    have rec: "search q d1 = (Inr res, d') \<Longrightarrow> ?thesis"
      using less.hyps [OF lt] lt by simp
    from less.prems T Inr lt rec show ?thesis
      by (cases tok) (auto simp: search.simps [of q d] split: if_splits)
  qed
qed

lemma unmarshal_tag_not_longer:
  "unmarshal_tag t d = (r, d') \<Longrightarrow> length (input d') \<le> length (input d)"
proof (induction t d arbitrary: r d' rule: unmarshal_tag.induct)
  case (1 t d)
  obtain x d1 where T: "Token d = (x, d1)" by (cases "Token d")
  from Token_not_longer [OF T] have le: "length (input d1) \<le> length (input d)" .
  note step = unmarshal_tag.simps [of t d]
  show ?case
  proof (cases x)
    case (Inl e)
    with T "1.prems" le show ?thesis by (simp add: step)
  next
    case (Inr tok)
    note IH = "1.IH" [OF T [symmetric] Inr]
    show ?thesis
    proof (cases tok)
      case (StartElement n a)
      consider (path) "n = ''Path''" | (grp) "n \<noteq> ''Path''" "n = ''Group''"
        | (desc) "n \<noteq> ''Path''" "n \<noteq> ''Group''" "n = ''desc''"
        | (jd) "n \<noteq> ''Path''" "n \<noteq> ''Group''" "n \<noteq> ''desc''" "n = ''JSONDescription''"
        | (other) "n \<noteq> ''Path''" "n \<noteq> ''Group''" "n \<noteq> ''desc''" "n \<noteq> ''JSONDescription''"
        by blast
      then show ?thesis
      proof cases
        case path
        obtain y d2 where U: "unmarshal_chardata [] d1 = (y, d2)"
          by (cases "unmarshal_chardata [] d1")
        from unmarshal_chardata_not_longer [OF U] le
        have le2: "length (input d2) \<le> length (input d)" by simp
        show ?thesis
        proof (cases y)
          case (Inl e)
          with "1.prems" T Inr StartElement path U le2 show ?thesis by (simp add: step)
        next
          case (Inr data)
          with "1.prems" T \<open>x = Inr tok\<close> StartElement path U
          have "unmarshal_tag (t\<lparr>Path := data\<rparr>) d2 = (r, d')" by (simp add: step)
          from IH(1) [OF StartElement path U [symmetric] Inr this] le2 show ?thesis by simp
        qed
      next
        case grp
        obtain y d2 where U: "unmarshal_chardata [] d1 = (y, d2)"
          by (cases "unmarshal_chardata [] d1")
        from unmarshal_chardata_not_longer [OF U] le
        have le2: "length (input d2) \<le> length (input d)" by simp
        show ?thesis
        proof (cases y)
          case (Inl e)
          with "1.prems" T Inr StartElement grp U le2 show ?thesis by (simp add: step)
        next
          case (Inr data)
          with "1.prems" T \<open>x = Inr tok\<close> StartElement grp U
          have "unmarshal_tag (t\<lparr>Group := data\<rparr>) d2 = (r, d')" by (simp add: step)
          from IH(2) [OF StartElement grp U [symmetric] Inr this] le2 show ?thesis by simp
        qed
      next
        case desc
        obtain y d2 where U: "unmarshal_xmlDesc (n, a) d1 = (y, d2)"
          by (cases "unmarshal_xmlDesc (n, a) d1")
        from unmarshal_xmlDesc_not_longer [OF U] le
        have le2: "length (input d2) \<le> length (input d)" by simp
        show ?thesis
        proof (cases y)
          case (Inl e)
          with "1.prems" T Inr StartElement desc U le2 show ?thesis by (simp add: step)
        next
          case (Inr xd)
          with "1.prems" T \<open>x = Inr tok\<close> StartElement desc U
          have "unmarshal_tag (t\<lparr>Description := Description t @ [xd]\<rparr>) d2 = (r, d')"
            by (simp add: step)
          from IH(3) [OF StartElement desc U [symmetric] Inr this] le2 show ?thesis by simp
        qed
      next
        case jd
        with "1.prems" T Inr StartElement le show ?thesis by (simp add: step)
      next
        case other
        obtain y d2 where U: "Skip d1 = (y, d2)" by (cases "Skip d1")
        from Skip_not_longer [OF U] le
        have le2: "length (input d2) \<le> length (input d)" by simp
        show ?thesis
        proof (cases y)
          case (Some e)
          with "1.prems" T Inr StartElement other U le2 show ?thesis by (simp add: step)
        next
          case None
          with "1.prems" T Inr StartElement other U
          have "unmarshal_tag t d2 = (r, d')" by (simp add: step)
          from IH(4) [OF StartElement other U [symmetric] None this] le2 show ?thesis by simp
        qed
      qed
    next
      case (EndElement n)
      with "1.prems" T Inr le show ?thesis by (simp add: step)
    next
      case (CharData c)
      with "1.prems" T Inr have "unmarshal_tag t d1 = (r, d')" by (simp add: step)
      from IH(5) [OF CharData this] le show ?thesis by simp
    next
      case (Comment c)
      with "1.prems" T Inr have "unmarshal_tag t d1 = (r, d')" by (simp add: step)
      from IH(6) [OF Comment this] le show ?thesis by simp
    next
      case (ProcInst a b)
      with "1.prems" T Inr have "unmarshal_tag t d1 = (r, d')" by (simp add: step)
      from IH(7) [OF ProcInst this] le show ?thesis by simp
    next
      case (Directive c)
      with "1.prems" T Inr have "unmarshal_tag t d1 = (r, d')" by (simp add: step)
      from IH(8) [OF Directive this] le show ?thesis by simp
    qed
  qed
qed

lemma DecodeElement_not_longer:
  "DecodeElement se d = (r, d') \<Longrightarrow> length (input d') \<le> length (input d)"
  by (auto simp: DecodeElement_def split: sum.splits dest: unmarshal_tag_not_longer)

lemma emitTag_not_longer:
  "emitTag tn se s = (r, s') \<Longrightarrow> length (input (Decoder s')) \<le> length (input (Decoder s))"
  by (auto simp: emitTag_def Let_def split: prod.splits sum.splits option.splits
      dest: DecodeElement_not_longer)

lemma search_not_longer:
  "search q d = (r, d') \<Longrightarrow> length (input d') \<le> length (input d)"
proof (induction "length (input d)" arbitrary: d rule: less_induct)
  case less
  obtain x d1 where T: "Token d = (x, d1)" by (cases "Token d")
  from Token_not_longer [OF T] have le: "length (input d1) \<le> length (input d)" .
  show ?case
  proof (cases x)
    case (Inl e)
    with T less.prems le show ?thesis by (simp add: search.simps [of q d])
  next
    case (Inr tok)
    from Token_shorter T Inr have lt: "length (input d1) < length (input d)" by blast
    have rec: "search q d1 = (r, d') \<Longrightarrow> ?thesis"
      using less.hyps [OF lt] lt by simp
    from less.prems T Inr lt rec show ?thesis
      by (cases tok) (auto simp: search.simps [of q d] split: if_splits)
  qed
qed

text \<open>
  \<^verbatim>\<open>streamTags\<close>: the loop, with the local \<^verbatim>\<open>comma\<close> as an argument. A result of \<^verbatim>\<open>search\<close> with
  neither field set would fall through both tests and go round again.
\<close>

function streamTags_loop :: "string \<Rightarrow> bool \<Rightarrow> streamer \<Rightarrow> error option \<times> streamer" where
  "streamTags_loop tableName comma s =
     (case search \<lparr>NamedStart = ''tag'', NamedEnd = ''table''\<rparr> (Decoder s) of
        (Inl err, d) \<Rightarrow> (Some (ErrorfW ''search'' err), s\<lparr>Decoder := d\<rparr>)
      | (Inr res, d) \<Rightarrow>
          if rNamedEnd res \<noteq> None then (None, s\<lparr>Decoder := d\<rparr>)
          else
            (case rNamedStart res of
               Some se \<Rightarrow>
                 (case (if comma then Write '','' (Writer s) else (None, Writer s)) of
                    (Some err, w) \<Rightarrow>
                      (Some (ErrorfW ''s.Writer.Write'' err), s\<lparr>Decoder := d, Writer := w\<rparr>)
                  | (None, w) \<Rightarrow>
                      (case emitTag tableName se (s\<lparr>Decoder := d, Writer := w\<rparr>) of
                         (Some err, s') \<Rightarrow> (Some (ErrorfW ''s.emitTag'' err), s')
                       | (None, s') \<Rightarrow> streamTags_loop tableName True s'))
             | None \<Rightarrow> streamTags_loop tableName True (s\<lparr>Decoder := d\<rparr>)))"
  by pat_completeness auto
termination
  by (relation "measure (\<lambda>(n, c, s). length (input (Decoder s)))")
     (auto dest!: search_shorter [OF sym] emitTag_not_longer [OF sym])

declare streamTags_loop.simps [simp del]

definition streamTags :: "string \<Rightarrow> streamer \<Rightarrow> error option \<times> streamer" where
  "streamTags tableName s = streamTags_loop tableName False s"

lemma streamTags_loop_shorter:
  "streamTags_loop tn c s = (r, s') \<Longrightarrow>
   length (input (Decoder s')) \<le> length (input (Decoder s))"
proof (induction "length (input (Decoder s))" arbitrary: s c rule: less_induct)
  case less
  let ?q = "\<lparr>NamedStart = ''tag'', NamedEnd = ''table''\<rparr>"
  obtain x d where S: "search ?q (Decoder s) = (x, d)" by (cases "search ?q (Decoder s)")
  note step = streamTags_loop.simps [of tn c s]
  show ?case
  proof (cases x)
    case (Inl e)
    with S less.prems have "s' = s\<lparr>Decoder := d\<rparr>" by (simp add: step)
    moreover from search_not_longer [OF S]
    have "length (input d) \<le> length (input (Decoder s))" .
    ultimately show ?thesis by simp
  next
    case (Inr res)
    from search_shorter S Inr have lt: "length (input d) < length (input (Decoder s))" by blast
    have rec: "streamTags_loop tn c' s1 = (r, s') \<Longrightarrow>
        length (input (Decoder s1)) \<le> length (input d) \<Longrightarrow> ?thesis" for c' s1
      using less.hyps [of s1 c'] lt by simp
    from less.prems S Inr lt show ?thesis
      apply (simp add: step split: if_splits option.splits prod.splits)
      apply (auto dest!: emitTag_not_longer intro: rec)
      done
  qed
qed

text \<open>
  \<^verbatim>\<open>stream\<close>: the loop has no exit but an error, so the result is the error. The query has
  no \<^verbatim>\<open>NamedEnd\<close>; were \<^verbatim>\<open>table.NamedStart\<close> nil all the same, reading its attributes would
  panic.
\<close>

function stream :: "streamer \<Rightarrow> error \<times> streamer" where
  "stream s =
     (case search \<lparr>NamedStart = ''table'', NamedEnd = ''''\<rparr> (Decoder s) of
        (Inl err, d) \<Rightarrow> (ErrorfV ''search'' err, s\<lparr>Decoder := d\<rparr>)
      | (Inr table, d) \<Rightarrow>
          (case rNamedStart table of
             None \<Rightarrow> (NilDereference, s\<lparr>Decoder := d\<rparr>)
           | Some se \<Rightarrow>
               (case attributeByLocalName ''name'' se of
                  (tableName, hasTableName) \<Rightarrow>
                    if \<not> hasTableName
                    then (ErrorsNew ''no table name specified by exiftool'', s\<lparr>Decoder := d\<rparr>)
                    else
                      (case streamTags tableName (s\<lparr>Decoder := d\<rparr>) of
                         (Some err, s') \<Rightarrow> (ErrorfW ''s.streamTags'' err, s')
                       | (None, s') \<Rightarrow> stream s'))))"
  by pat_completeness auto
termination
  by (relation "measure (\<lambda>s. length (input (Decoder s)))")
     (auto simp: streamTags_def dest!: search_shorter [OF sym] streamTags_loop_shorter [OF sym])

declare stream.simps [simp del]

text \<open>
  The first goroutine of \<^verbatim>\<open>StreamTags\<close>, from the streamer over the decoder and the sink:
  the error it assigns to \<^verbatim>\<open>err\<close> (\<open>None\<close> when it assigns none), whether it called
  \<^verbatim>\<open>et.cancel\<close>, and the streamer it leaves.
\<close>

definition streamActivity :: "streamer \<Rightarrow> error option \<times> bool \<times> streamer" where
  "streamActivity s =
     (case emitProlog s of
        (Some prologErr, s1) \<Rightarrow> (Some (ErrorfW ''s.emitProlog'' prologErr), False, s1)
      | (None, s1) \<Rightarrow>
          (case stream s1 of
             (streamErr, s2) \<Rightarrow>
               if errors_Is streamErr EOF then
                 (case emitEpilog s2 of
                    (Some epilogErr, s3) \<Rightarrow> (Some (ErrorfW ''s.emitEpilog'' epilogErr), False, s3)
                  | (None, s3) \<Rightarrow> (None, False, s3))
               else (Some (ErrorfW ''stream'' streamErr), True, s2)))"

definition newStreamer :: "raw list \<Rightarrow> nat option \<Rightarrow> streamer" where
  "newStreamer rs b = \<lparr>Decoder = NewDecoder rs, Writer = \<lparr>written = [], budget = b\<rparr>\<rparr>"
section \<open>Inputs\<close>

text \<open>
  The token stream of a document of tables, each with its \<^verbatim>\<open>name\<close> and its tags, inside the
  root element \<^verbatim>\<open>taginfo\<close>, as the subprocess writes it. A tag has its attributes and its
  \<^verbatim>\<open>desc\<close> children, each with its attributes and its text.
\<close>

type_synonym desc_src = "Attr list \<times> string"

type_synonym tag_src = "Attr list \<times> desc_src list"

type_synonym table_src = "string \<times> tag_src list"

definition desc_tokens :: "desc_src \<Rightarrow> raw list" where
  "desc_tokens ds =
     [Tok (StartElement ''desc'' (fst ds)), Tok (CharData (snd ds)), Tok (EndElement ''desc'')]"

definition tag_tokens :: "tag_src \<Rightarrow> raw list" where
  "tag_tokens ts =
     Tok (StartElement ''tag'' (fst ts)) # concat (map desc_tokens (snd ts)) @
     [Tok (EndElement ''tag'')]"

definition table_tokens :: "table_src \<Rightarrow> raw list" where
  "table_tokens tb =
     Tok (StartElement ''table'' [(''name'', fst tb)]) # concat (map tag_tokens (snd tb)) @
     [Tok (EndElement ''table'')]"

definition doc_tokens :: "table_src list \<Rightarrow> raw list" where
  "doc_tokens tbs =
     Tok (StartElement ''taginfo'' []) # concat (map table_tokens tbs) @
     [Tok (EndElement ''taginfo'')]"

text \<open>The streaming goroutine over an input, with a sink that never fails.\<close>

definition run :: "raw list \<Rightarrow> error option \<times> bool \<times> streamer" where
  "run rs = streamActivity (newStreamer rs None)"

definition run_error :: "raw list \<Rightarrow> error option" where
  "run_error rs = fst (run rs)"

definition run_written :: "raw list \<Rightarrow> chunk list" where
  "run_written rs = written (Writer (snd (snd (run rs))))"

definition run_bytes :: "raw list \<Rightarrow> string" where
  "run_bytes rs = sink_bytes (Writer (snd (snd (run rs))))"

text \<open>The error \<^verbatim>\<open>stream\<close> returns to the goroutine, the prologue written.\<close>

definition run_streamErr :: "raw list \<Rightarrow> error" where
  "run_streamErr rs = fst (stream (snd (emitProlog (newStreamer rs None))))"

text \<open>Two tables \<^verbatim>\<open>A\<close> and \<^verbatim>\<open>B\<close> with one tag each, and a table with no \<^verbatim>\<open>name\<close> after a table.\<close>

definition two_tables :: "raw list" where
  "two_tables = doc_tokens
     [(''A'', [([(''name'', ''x''), (''writable'', ''true''), (''type'', ''string'')],
               [([(''lang'', ''en'')], ''X'')])]),
      (''B'', [([(''name'', ''y''), (''writable'', ''false''), (''type'', ''int8u'')], [])])]"

definition second_table_unnamed :: "raw list" where
  "second_table_unnamed =
     [Tok (StartElement ''table'' [(''name'', ''A'')]), Tok (EndElement ''table''),
      Tok (StartElement ''table'' [(''g0'', ''B'')]),
      Tok (StartElement ''tag'' [(''name'', ''y'')]), Tok (EndElement ''tag''),
      Tok (EndElement ''table'')]"
section \<open>What a written record is made of\<close>

text \<open>
  The value the decoder leaves in a field filled from an attribute: that of the last
  attribute of the name, the field's zero value when there is none.
\<close>

fun attr_last :: "string \<Rightarrow> Attr list \<Rightarrow> string \<Rightarrow> string" where
  "attr_last k [] dflt = dflt"
| "attr_last k ((n, v) # as) dflt = attr_last k as (if n = k then v else dflt)"

text \<open>
  The fields \<^verbatim>\<open>emitTag\<close> sets, from the table name it was given and the decoded fields.
\<close>

definition tag_made :: "string \<Rightarrow> tag \<Rightarrow> bool" where
  "tag_made tableName t \<longleftrightarrow>
     Path t = tableName @ '':'' @ Name t \<and> Group t = tableName \<and>
     JSONDescription t = fold (\<lambda>d m. AList.update (Lang d) (Value d) m) (Description t) []"

text \<open>
  A record comes from the input and the table name \<open>tn\<close>: \<^verbatim>\<open>emitTag\<close> made it with \<open>tn\<close>, from a
  \<^verbatim>\<open>tag\<close> start element of the input whose \<open>name\<close> attribute is the record's \<open>Name\<close>.
\<close>

definition tag_from :: "raw list \<Rightarrow> string \<Rightarrow> tag \<Rightarrow> bool" where
  "tag_from rs tn t \<longleftrightarrow>
     tag_made tn t \<and>
     (\<exists>a. Tok (StartElement ''tag'' a) \<in> set rs \<and> Name t = attr_last ''name'' a '''')"

text \<open>
  A record comes from the input: from one of its tags, with the name of one of its
  tables that have a \<open>name\<close> attribute.
\<close>

definition record_from :: "raw list \<Rightarrow> tag \<Rightarrow> bool" where
  "record_from rs t \<longleftrightarrow>
     (\<exists>tn ta. Tok (StartElement ''table'' ta) \<in> set rs \<and>
        attributeByLocalName ''name'' (''table'', ta) = (tn, True) \<and> tag_from rs tn t)"

section \<open>Properties of search\<close>

lemma Token_Inr_input:
  "Token d = (Inr t, d') \<Longrightarrow> input d = Tok t # input d'"
  by (auto simp: Token.simps split: list.splits raw.splits xml_token.splits if_splits)

lemma search_Inr:
  "search q d = (Inr res, d') \<Longrightarrow>
   (\<exists>pre n a. rNamedStart res = Some (n, a) \<and> rNamedEnd res = None \<and> n = NamedStart q \<and>
       NamedStart q \<noteq> '''' \<and> input d = pre @ Tok (StartElement n a) # input d') \<or>
   (\<exists>pre n. rNamedStart res = None \<and> rNamedEnd res = Some n \<and> n = NamedStart q \<and>
       NamedEnd q \<noteq> '''' \<and> input d = pre @ Tok (EndElement n) # input d')"
proof (induction "length (input d)" arbitrary: d rule: less_induct)
  case less
  obtain x d1 where T: "Token d = (x, d1)" by (cases "Token d")
  show ?case
  proof (cases x)
    case (Inl e)
    with T less.prems show ?thesis by (simp add: search.simps [of q d])
  next
    case (Inr tok)
    from Token_shorter T Inr have lt: "length (input d1) < length (input d)" by blast
    from Token_Inr_input T Inr have inp: "input d = Tok tok # input d1" by blast
    have rec: ?thesis if "search q d1 = (Inr res, d')"
    proof -
      from less.hyps [OF lt that] show ?thesis
      proof (elim disjE exE conjE)
        fix pre n a
        assume "rNamedStart res = Some (n, a)" "rNamedEnd res = None" "n = NamedStart q"
          "NamedStart q \<noteq> []" "input d1 = pre @ Tok (StartElement n a) # input d'"
        with inp have "rNamedStart res = Some (n, a) \<and> rNamedEnd res = None \<and> n = NamedStart q \<and>
          NamedStart q \<noteq> [] \<and> input d = (Tok tok # pre) @ Tok (StartElement n a) # input d'"
          by simp
        then show ?thesis by blast
      next
        fix pre n
        assume "rNamedStart res = None" "rNamedEnd res = Some n" "n = NamedStart q"
          "NamedEnd q \<noteq> []" "input d1 = pre @ Tok (EndElement n) # input d'"
        with inp have "rNamedStart res = None \<and> rNamedEnd res = Some n \<and> n = NamedStart q \<and>
          NamedEnd q \<noteq> [] \<and> input d = (Tok tok # pre) @ Tok (EndElement n) # input d'"
          by simp
        then show ?thesis by blast
      qed
    qed
    show ?thesis
    proof (cases tok)
      case (StartElement n a)
      show ?thesis
      proof (cases "NamedStart q \<noteq> [] \<and> n = NamedStart q")
        case True
        with less.prems T Inr StartElement
        have "res = \<lparr>rNamedStart = Some (n, a), rNamedEnd = None\<rparr>" "d' = d1"
          by (auto simp: search.simps [of q d])
        with True inp StartElement
        have "rNamedStart res = Some (n, a) \<and> rNamedEnd res = None \<and> n = NamedStart q \<and>
          NamedStart q \<noteq> [] \<and> input d = [] @ Tok (StartElement n a) # input d'"
          by simp
        then show ?thesis by blast
      next
        case False
        with less.prems T Inr StartElement have "search q d1 = (Inr res, d')"
          by (auto simp: search.simps [of q d] split: if_splits)
        then show ?thesis by (rule rec)
      qed
    next
      case (EndElement n)
      show ?thesis
      proof (cases "NamedEnd q \<noteq> [] \<and> n = NamedStart q")
        case True
        with less.prems T Inr EndElement
        have "res = \<lparr>rNamedStart = None, rNamedEnd = Some n\<rparr>" "d' = d1"
          by (auto simp: search.simps [of q d])
        with True inp EndElement
        have "rNamedStart res = None \<and> rNamedEnd res = Some n \<and> n = NamedStart q \<and>
          NamedEnd q \<noteq> [] \<and> input d = [] @ Tok (EndElement n) # input d'"
          by simp
        then show ?thesis by blast
      next
        case False
        with less.prems T Inr EndElement have "search q d1 = (Inr res, d')"
          by (auto simp: search.simps [of q d] split: if_splits)
        then show ?thesis by (rule rec)
      qed
    next
      case (CharData c)
      with less.prems T Inr have "search q d1 = (Inr res, d')" by (simp add: search.simps [of q d])
      then show ?thesis by (rule rec)
    next
      case (Comment c)
      with less.prems T Inr have "search q d1 = (Inr res, d')" by (simp add: search.simps [of q d])
      then show ?thesis by (rule rec)
    next
      case (ProcInst a b)
      with less.prems T Inr have "search q d1 = (Inr res, d')" by (simp add: search.simps [of q d])
      then show ?thesis by (rule rec)
    next
      case (Directive c)
      with less.prems T Inr have "search q d1 = (Inr res, d')" by (simp add: search.simps [of q d])
      then show ?thesis by (rule rec)
    qed
  qed
qed

lemma search_NamedEnd_flag:
  "NamedStart q' = NamedStart q \<Longrightarrow> (NamedEnd q' = '''') = (NamedEnd q = '''') \<Longrightarrow>
   search q' d = search q d"
proof (induction "length (input d)" arbitrary: d rule: less_induct)
  case less
  obtain x d1 where T: "Token d = (x, d1)" by (cases "Token d")
  show ?case
  proof (cases x)
    case (Inl e)
    with T show ?thesis by (simp add: search.simps [of q d] search.simps [of q' d])
  next
    case (Inr tok)
    from Token_shorter T Inr have lt: "length (input d1) < length (input d)" by blast
    from less.hyps [OF lt less.prems] have "search q' d1 = search q d1" .
    with T Inr less.prems show ?thesis
      by (cases tok) (simp_all add: search.simps [of q d] search.simps [of q' d])
  qed
qed

section \<open>The decoder only consumes\<close>

lemma Token_suffix: "Token d = (r, d') \<Longrightarrow> suffix (input d') (input d)"
  by (auto simp: Token.simps suffix_def split: list.splits raw.splits xml_token.splits if_splits)

lemma search_suffix: "search q d = (r, d') \<Longrightarrow> suffix (input d') (input d)"
proof (induction "length (input d)" arbitrary: d rule: less_induct)
  case less
  obtain x d1 where T: "Token d = (x, d1)" by (cases "Token d")
  from Token_suffix [OF T] have su: "suffix (input d1) (input d)" .
  show ?case
  proof (cases x)
    case (Inl e)
    with T less.prems su show ?thesis by (simp add: search.simps [of q d])
  next
    case (Inr tok)
    from Token_shorter T Inr have lt: "length (input d1) < length (input d)" by blast
    have rec: "search q d1 = (r, d') \<Longrightarrow> ?thesis"
      using less.hyps [OF lt] su by (blast intro: suffix_order.trans)
    from less.prems T Inr su rec show ?thesis
      by (cases tok) (auto simp: search.simps [of q d] split: if_splits)
  qed
qed

lemma Skip_from_suffix: "Skip_from k d = (r, d') \<Longrightarrow> suffix (input d') (input d)"
proof (induction "length (input d)" arbitrary: d k rule: less_induct)
  case less
  obtain x d1 where T: "Token d = (x, d1)" by (cases "Token d")
  from Token_suffix [OF T] have su: "suffix (input d1) (input d)" .
  show ?case
  proof (cases x)
    case (Inl e)
    with T less.prems su show ?thesis by (simp add: Skip_from.simps [of k d])
  next
    case (Inr tok)
    from Token_shorter T Inr have lt: "length (input d1) < length (input d)" by blast
    have rec: "Skip_from k' d1 = (r, d') \<Longrightarrow> ?thesis" for k'
      using less.hyps [OF lt] su by (blast intro: suffix_order.trans)
    from less.prems T Inr su rec show ?thesis
      by (cases tok) (auto simp: Skip_from.simps [of k d] split: if_splits)
  qed
qed

lemma Skip_suffix: "Skip d = (r, d') \<Longrightarrow> suffix (input d') (input d)"
  unfolding Skip_def by (rule Skip_from_suffix)

lemma unmarshal_chardata_suffix:
  "unmarshal_chardata data d = (r, d') \<Longrightarrow> suffix (input d') (input d)"
proof (induction "length (input d)" arbitrary: d data rule: less_induct)
  case less
  obtain x d1 where T: "Token d = (x, d1)" by (cases "Token d")
  from Token_suffix [OF T] have su: "suffix (input d1) (input d)" .
  note step = unmarshal_chardata.simps [of data d]
  show ?case
  proof (cases x)
    case (Inl e)
    with T less.prems su show ?thesis by (simp add: step)
  next
    case (Inr tok)
    from Token_shorter T Inr have lt: "length (input d1) < length (input d)" by blast
    have rec: "unmarshal_chardata data' d2 = (r, d') \<Longrightarrow> suffix (input d2) (input d1) \<Longrightarrow> ?thesis"
      for data' d2
    proof -
      assume a: "unmarshal_chardata data' d2 = (r, d')" and b: "suffix (input d2) (input d1)"
      from b have "length (input d2) \<le> length (input d1)" by (rule suffix_length_le)
      with lt have "length (input d2) < length (input d)" by simp
      from less.hyps [OF this a] b su show ?thesis by (blast intro: suffix_order.trans)
    qed
    show ?thesis
    proof (cases tok)
      case (StartElement n a)
      obtain y d2 where S: "Skip d1 = (y, d2)" by (cases "Skip d1")
      from Skip_suffix [OF S] have su2: "suffix (input d2) (input d1)" .
      with su have su3: "suffix (input d2) (input d)" by (blast intro: suffix_order.trans)
      from less.prems T Inr StartElement S su2 su3 rec show ?thesis
        by (cases y) (auto simp: step)
    qed (use less.prems T Inr su rec in \<open>auto simp: step\<close>)
  qed
qed

lemma unmarshal_xmlDesc_suffix:
  "unmarshal_xmlDesc start d = (r, d') \<Longrightarrow> suffix (input d') (input d)"
  by (auto simp: unmarshal_xmlDesc_def Let_def split: prod.splits sum.splits
      dest: unmarshal_chardata_suffix)

lemma unmarshal_tag_suffix:
  "unmarshal_tag t d = (r, d') \<Longrightarrow> suffix (input d') (input d)"
proof (induction "length (input d)" arbitrary: d t rule: less_induct)
  case less
  obtain x d1 where T: "Token d = (x, d1)" by (cases "Token d")
  from Token_suffix [OF T] have su: "suffix (input d1) (input d)" .
  note step = unmarshal_tag.simps [of t d]
  show ?case
  proof (cases x)
    case (Inl e)
    with T less.prems su show ?thesis by (simp add: step)
  next
    case (Inr tok)
    from Token_shorter T Inr have lt: "length (input d1) < length (input d)" by blast
    have rec: "unmarshal_tag t' d2 = (r, d') \<Longrightarrow> suffix (input d2) (input d1) \<Longrightarrow> ?thesis"
      for t' d2
    proof -
      assume a: "unmarshal_tag t' d2 = (r, d')" and b: "suffix (input d2) (input d1)"
      from b have "length (input d2) \<le> length (input d1)" by (rule suffix_length_le)
      with lt have "length (input d2) < length (input d)" by simp
      from less.hyps [OF this a] b su show ?thesis by (blast intro: suffix_order.trans)
    qed
    have stop: "d' = d2 \<Longrightarrow> suffix (input d2) (input d1) \<Longrightarrow> ?thesis" for d2
      using su by (blast intro: suffix_order.trans)
    show ?thesis
    proof (cases tok)
      case (StartElement n a)
      obtain y d2 where S: "Skip d1 = (y, d2)" by (cases "Skip d1")
      obtain u d3 where U: "unmarshal_chardata [] d1 = (u, d3)"
        by (cases "unmarshal_chardata [] d1")
      obtain v d4 where V: "unmarshal_xmlDesc (n, a) d1 = (v, d4)"
        by (cases "unmarshal_xmlDesc (n, a) d1")
      note sus = Skip_suffix [OF S] unmarshal_chardata_suffix [OF U] unmarshal_xmlDesc_suffix [OF V]
      from less.prems T Inr StartElement S U V sus su show ?thesis
        by (cases y; cases u; cases v)
           (auto simp: step split: if_splits intro: rec stop)
    qed (use less.prems T Inr su rec in \<open>auto simp: step\<close>)
  qed
qed
section \<open>What the streamer writes\<close>

lemma put_cases:
  assumes "put c w = (r, w')"
  obtains (ok) "r = None" "written w' = written w @ [c]"
  | (failed) "r = Some WriteError" "w' = w" "budget w = Some 0"
  using assms by (auto simp: put_def split: option.splits nat.splits)

lemma tag_attrs_Name:
  "tag_attrs a t = Inr t' \<Longrightarrow> Name t' = attr_last ''name'' a (Name t)"
  by (induction a arbitrary: t) (auto split: if_splits sum.splits)

lemma unmarshal_tag_Name:
  "unmarshal_tag t d = (Inr t', d') \<Longrightarrow> Name t' = Name t"
proof (induction "length (input d)" arbitrary: d t rule: less_induct)
  case less
  obtain x d1 where T: "Token d = (x, d1)" by (cases "Token d")
  note step = unmarshal_tag.simps [of t d]
  show ?case
  proof (cases x)
    case (Inl e)
    with T less.prems show ?thesis by (simp add: step)
  next
    case (Inr tok)
    from Token_shorter T Inr have lt: "length (input d1) < length (input d)" by blast
    have rec: "unmarshal_tag t2 d2 = (Inr t', d') \<Longrightarrow> length (input d2) \<le> length (input d1) \<Longrightarrow>
        Name t2 = Name t \<Longrightarrow> ?thesis" for t2 d2
      using less.hyps [of d2 t2] lt by simp
    show ?thesis
    proof (cases tok)
      case (StartElement n a)
      obtain y d2 where S: "Skip d1 = (y, d2)" by (cases "Skip d1")
      obtain u d3 where U: "unmarshal_chardata [] d1 = (u, d3)"
        by (cases "unmarshal_chardata [] d1")
      obtain v d4 where V: "unmarshal_xmlDesc (n, a) d1 = (v, d4)"
        by (cases "unmarshal_xmlDesc (n, a) d1")
      note les = Skip_not_longer [OF S] unmarshal_chardata_not_longer [OF U]
        unmarshal_xmlDesc_not_longer [OF V]
      from less.prems T Inr StartElement S U V les show ?thesis
        by (cases y; cases u; cases v)
           (auto simp: step split: if_splits intro: rec)
    qed (use less.prems T Inr rec in \<open>auto simp: step\<close>)
  qed
qed

lemma DecodeElement_Name:
  "DecodeElement se d = (Inr t, d') \<Longrightarrow> Name t = attr_last ''name'' (snd se) ''''"
  by (auto simp: DecodeElement_def zero_tag_def split: sum.splits
      dest!: tag_attrs_Name unmarshal_tag_Name)

lemma DecodeElement_suffix:
  "DecodeElement se d = (r, d') \<Longrightarrow> suffix (input d') (input d)"
  by (auto simp: DecodeElement_def split: sum.splits dest: unmarshal_tag_suffix)

lemma emitTag_suffix:
  "emitTag tn se s = (r, s') \<Longrightarrow> suffix (input (Decoder s')) (input (Decoder s))"
  by (auto simp: emitTag_def Let_def split: prod.splits sum.splits option.splits
      dest: DecodeElement_suffix)

lemma emitTag_written:
  assumes "emitTag tn se s = (r, s')"
  shows "(r \<noteq> None \<and> written (Writer s') = written (Writer s)) \<or>
    (\<exists>t. r = None \<and> written (Writer s') = written (Writer s) @ [Record t] \<and>
       tag_made tn t \<and> Name t = attr_last ''name'' (snd se) '''')"
proof -
  obtain x d where D: "DecodeElement se (Decoder s) = (x, d)"
    by (cases "DecodeElement se (Decoder s)")
  show ?thesis
  proof (cases x)
    case (Inl e)
    with D assms show ?thesis by (auto simp: emitTag_def)
  next
    case (Inr t0)
    define t where "t = t0\<lparr>Path := tn @ '':'' @ Name t0, Group := tn,
      JSONDescription := fold (\<lambda>d m. AList.update (Lang d) (Value d) m) (Description t0) []\<rparr>"
    have made: "tag_made tn t" by (simp add: t_def tag_made_def)
    from DecodeElement_Name D Inr have "Name t0 = attr_last ''name'' (snd se) ''''" by blast
    then have name: "Name t = attr_last ''name'' (snd se) ''''" by (simp add: t_def)
    obtain y w where E: "Encode t (Writer s) = (y, w)" by (cases "Encode t (Writer s)")
    from E have P: "put (Record t) (Writer s) = (y, w)" by (simp add: Encode_def)
    from assms D Inr E have res: "r = (case y of Some err \<Rightarrow> Some (ErrorfW ''s.Encoder.Encode'' err)
        | None \<Rightarrow> None)" "Writer s' = w"
      by (auto simp: emitTag_def Let_def t_def split: option.splits)
    from P show ?thesis
    proof (cases rule: put_cases)
      case ok
      with res made name show ?thesis by auto
    next
      case failed
      with res show ?thesis by auto
    qed
  qed
qed
lemma tag_from_suffix:
  "tag_from rs' tn t \<Longrightarrow> suffix rs' rs \<Longrightarrow> tag_from rs tn t"
  by (auto simp: tag_from_def dest: set_mono_suffix)

lemma streamTags_loop_suffix:
  "streamTags_loop tn c s = (r, s') \<Longrightarrow> suffix (input (Decoder s')) (input (Decoder s))"
proof (induction "length (input (Decoder s))" arbitrary: s c rule: less_induct)
  case less
  let ?q = "\<lparr>NamedStart = ''tag'', NamedEnd = ''table''\<rparr>"
  obtain x d where S: "search ?q (Decoder s) = (x, d)" by (cases "search ?q (Decoder s)")
  from search_suffix [OF S] have su: "suffix (input d) (input (Decoder s))" .
  note step = streamTags_loop.simps [of tn c s]
  show ?case
  proof (cases x)
    case (Inl e)
    with S less.prems su show ?thesis by (auto simp: step)
  next
    case (Inr res)
    from search_shorter S Inr have lt: "length (input d) < length (input (Decoder s))" by blast
    have rec: "streamTags_loop tn c' s1 = (r, s') \<Longrightarrow>
        suffix (input (Decoder s1)) (input d) \<Longrightarrow> ?thesis" for c' s1
    proof -
      assume a: "streamTags_loop tn c' s1 = (r, s')" and b: "suffix (input (Decoder s1)) (input d)"
      from b have "length (input (Decoder s1)) \<le> length (input d)" by (rule suffix_length_le)
      with lt have "length (input (Decoder s1)) < length (input (Decoder s))" by simp
      from less.hyps [OF this a] b su show ?thesis by (blast intro: suffix_order.trans)
    qed
    show ?thesis
    proof (cases "rNamedEnd res")
      case (Some m)
      with S Inr less.prems su show ?thesis by (auto simp: step)
    next
      case None
      show ?thesis
      proof (cases "rNamedStart res")
        case None1: None
        with S Inr None less.prems have "streamTags_loop tn True (s\<lparr>Decoder := d\<rparr>) = (r, s')"
          by (auto simp: step)
        then show ?thesis by (rule rec) simp
      next
        case (Some se)
        obtain y w where W: "(if c then Write '','' (Writer s) else (None, Writer s)) = (y, w)"
          by (cases "if c then Write '','' (Writer s) else (None, Writer s)")
        show ?thesis
        proof (cases y)
          case Some2: (Some e)
          with S Inr None Some W less.prems su show ?thesis by (auto simp: step)
        next
          case None2: None
          let ?s1 = "s\<lparr>Decoder := d, Writer := w\<rparr>"
          obtain z s2 where E: "emitTag tn se ?s1 = (z, s2)" by (cases "emitTag tn se ?s1")
          from emitTag_suffix [OF E] have su2: "suffix (input (Decoder s2)) (input d)" by simp
          show ?thesis
          proof (cases z)
            case Some3: (Some e)
            with S Inr None Some W None2 E less.prems have "s' = s2" by (auto simp: step)
            with su2 su show ?thesis by (blast intro: suffix_order.trans)
          next
            case None3: None
            with S Inr None Some W None2 E less.prems
            have "streamTags_loop tn True s2 = (r, s')" by (auto simp: step)
            then show ?thesis using su2 by (rule rec)
          qed
        qed
      qed
    qed
  qed
qed

lemma streamTags_loop_written:
  assumes "streamTags_loop tn c s = (r, s')"
  shows "\<exists>new. written (Writer s') = written (Writer s) @ new \<and>
    (\<forall>t. Record t \<in> set new \<longrightarrow> tag_from (input (Decoder s)) tn t)"
  using assms
proof (induction "length (input (Decoder s))" arbitrary: s c rule: less_induct)
  case less
  let ?q = "\<lparr>NamedStart = ''tag'', NamedEnd = ''table''\<rparr>"
  obtain x d where S: "search ?q (Decoder s) = (x, d)" by (cases "search ?q (Decoder s)")
  from search_suffix [OF S] have su: "suffix (input d) (input (Decoder s))" .
  note step = streamTags_loop.simps [of tn c s]
  show ?case
  proof (cases x)
    case (Inl e)
    with S less.prems have "written (Writer s') = written (Writer s) @ []" by (auto simp: step)
    then show ?thesis by fastforce
  next
    case (Inr res)
    from search_shorter S Inr have lt: "length (input d) < length (input (Decoder s))" by blast
    from search_Inr S Inr consider
      (start) pre n a where "rNamedStart res = Some (n, a)" "rNamedEnd res = None" "n = ''tag''"
        "input (Decoder s) = pre @ Tok (StartElement n a) # input d"
      | (close) m where "rNamedStart res = None" "rNamedEnd res = Some m"
      by fastforce
    then show ?thesis
    proof cases
      case close
      with S Inr less.prems have "written (Writer s') = written (Writer s) @ []"
        by (auto simp: step)
      then show ?thesis by fastforce
    next
      case start
      then have inp: "Tok (StartElement ''tag'' a) \<in> set (input (Decoder s))" by simp
      obtain y w where W: "(if c then Write '','' (Writer s) else (None, Writer s)) = (y, w)"
        by (cases "if c then Write '','' (Writer s) else (None, Writer s)")
      have wr: "\<exists>cs. written w = written (Writer s) @ cs \<and> (\<forall>t. Record t \<notin> set cs)"
      proof (cases c)
        case True
        with W have "put (Bytes '','') (Writer s) = (y, w)" by (simp add: Write_def)
        then show ?thesis by (cases rule: put_cases) auto
      next
        case False
        with W show ?thesis by auto
      qed
      then obtain cs where cs: "written w = written (Writer s) @ cs" "\<forall>t. Record t \<notin> set cs"
        by blast
      show ?thesis
      proof (cases y)
        case (Some e)
        with S Inr start W less.prems have "written (Writer s') = written w" by (auto simp: step)
        with cs show ?thesis by auto
      next
        case None
        let ?s1 = "s\<lparr>Decoder := d, Writer := w\<rparr>"
        obtain z s2 where E: "emitTag tn (n, a) ?s1 = (z, s2)" by (cases "emitTag tn (n, a) ?s1")
        from emitTag_suffix [OF E] have su2: "suffix (input (Decoder s2)) (input d)" by simp
        from emitTag_written [OF E] obtain es where
          es: "written (Writer s2) = written w @ es"
            "\<forall>t. Record t \<in> set es \<longrightarrow> tag_from (input (Decoder s)) tn t"
            "z \<noteq> None \<or> es \<noteq> []"
          using inp start(3) by (fastforce simp: tag_from_def)
        show ?thesis
        proof (cases z)
          case (Some e)
          with S Inr start W None E less.prems have "s' = s2" by (auto simp: step)
          with cs es have "written (Writer s') = written (Writer s) @ (cs @ es)"
            "\<forall>t. Record t \<in> set (cs @ es) \<longrightarrow> tag_from (input (Decoder s)) tn t"
            by auto
          then show ?thesis by blast
        next
          case None2: None
          with S Inr start W None E less.prems have L: "streamTags_loop tn True s2 = (r, s')"
            by (auto simp: step)
          from su2 have "length (input (Decoder s2)) \<le> length (input d)" by (rule suffix_length_le)
          with lt have "length (input (Decoder s2)) < length (input (Decoder s))" by simp
          from less.hyps [OF this L] obtain new where
            new: "written (Writer s') = written (Writer s2) @ new"
              "\<forall>t. Record t \<in> set new \<longrightarrow> tag_from (input (Decoder s2)) tn t"
            by blast
          from su2 su have "suffix (input (Decoder s2)) (input (Decoder s))"
            by (blast intro: suffix_order.trans)
          with new(2) have "\<forall>t. Record t \<in> set new \<longrightarrow> tag_from (input (Decoder s)) tn t"
            by (blast intro: tag_from_suffix)
          with cs es new(1) have "written (Writer s') = written (Writer s) @ (cs @ es @ new)"
            "\<forall>t. Record t \<in> set (cs @ es @ new) \<longrightarrow> tag_from (input (Decoder s)) tn t"
            by auto
          then show ?thesis by blast
        qed
      qed
    qed
  qed
qed
lemma record_from_suffix:
  "record_from rs' t \<Longrightarrow> suffix rs' rs \<Longrightarrow> record_from rs t"
  unfolding record_from_def by (meson set_mono_suffix subsetD tag_from_suffix)

lemma stream_written:
  assumes "stream s = (e, s')"
  shows "\<exists>new. written (Writer s') = written (Writer s) @ new \<and>
    (\<forall>t. Record t \<in> set new \<longrightarrow> record_from (input (Decoder s)) t)"
  using assms
proof (induction "length (input (Decoder s))" arbitrary: s rule: less_induct)
  case less
  let ?q = "\<lparr>NamedStart = ''table'', NamedEnd = ''''\<rparr>"
  obtain x d where S: "search ?q (Decoder s) = (x, d)" by (cases "search ?q (Decoder s)")
  from search_suffix [OF S] have su: "suffix (input d) (input (Decoder s))" .
  note step = stream.simps [of s]
  have stop: ?case if "written (Writer s') = written (Writer s)"
  proof -
    from that have "written (Writer s') = written (Writer s) @ []" by simp
    then show ?thesis by fastforce
  qed
  show ?case
  proof (cases x)
    case (Inl err)
    with S less.prems show ?thesis by (auto simp: step intro: stop)
  next
    case (Inr res)
    from search_shorter S Inr have lt: "length (input d) < length (input (Decoder s))" by blast
    from search_Inr [of ?q] S Inr obtain pre n a where
      st: "rNamedStart res = Some (n, a)" "n = ''table''"
        "input (Decoder s) = pre @ Tok (StartElement n a) # input d"
      by fastforce
    then have inp: "Tok (StartElement ''table'' a) \<in> set (input (Decoder s))" by simp
    obtain tn has where A: "attributeByLocalName ''name'' (n, a) = (tn, has)"
      by (cases "attributeByLocalName ''name'' (n, a)")
    show ?thesis
    proof (cases has)
      case False
      with S Inr st A less.prems show ?thesis by (auto simp: step intro: stop)
    next
      case True
      let ?s1 = "s\<lparr>Decoder := d\<rparr>"
      obtain y s2 where T: "streamTags tn ?s1 = (y, s2)" by (cases "streamTags tn ?s1")
      then have L: "streamTags_loop tn False ?s1 = (y, s2)" by (simp add: streamTags_def)
      from streamTags_loop_suffix [OF L] have su2: "suffix (input (Decoder s2)) (input d)" by simp
      from streamTags_loop_written [OF L] obtain new1 where
        n1: "written (Writer s2) = written (Writer s) @ new1"
          "\<forall>t. Record t \<in> set new1 \<longrightarrow> tag_from (input d) tn t"
        by auto
      from n1(2) su have "\<forall>t. Record t \<in> set new1 \<longrightarrow> tag_from (input (Decoder s)) tn t"
        by (blast intro: tag_from_suffix)
      moreover from A True st(2)
      have "attributeByLocalName ''name'' (''table'', a) = (tn, True)" by simp
      ultimately have r1: "\<forall>t. Record t \<in> set new1 \<longrightarrow> record_from (input (Decoder s)) t"
        using inp unfolding record_from_def by blast
      show ?thesis
      proof (cases y)
        case (Some err)
        with S Inr st A True T less.prems have "s' = s2" by (auto simp: step)
        with n1(1) r1 show ?thesis by blast
      next
        case None
        with S Inr st A True T less.prems have R: "stream s2 = (e, s')" by (auto simp: step)
        from su2 have "length (input (Decoder s2)) \<le> length (input d)" by (rule suffix_length_le)
        with lt have "length (input (Decoder s2)) < length (input (Decoder s))" by simp
        from less.hyps [OF this R] obtain new2 where
          n2: "written (Writer s') = written (Writer s2) @ new2"
            "\<forall>t. Record t \<in> set new2 \<longrightarrow> record_from (input (Decoder s2)) t"
          by blast
        from su2 su have "suffix (input (Decoder s2)) (input (Decoder s))"
          by (blast intro: suffix_order.trans)
        with n2(2) have "\<forall>t. Record t \<in> set new2 \<longrightarrow> record_from (input (Decoder s)) t"
          by (blast intro: record_from_suffix)
        with n1(1) n2(1) r1 have "written (Writer s') = written (Writer s) @ (new1 @ new2)"
          "\<forall>t. Record t \<in> set (new1 @ new2) \<longrightarrow> record_from (input (Decoder s)) t"
          by auto
        then show ?thesis by blast
      qed
    qed
  qed
qed

lemma emitProlog_cases:
  assumes "emitProlog s = (r, s1)"
  obtains (ok) "r = None" "Decoder s1 = Decoder s"
      "written (Writer s1) = written (Writer s) @ [Bytes (CHR ''{'' # CHR 0x22 # ''tags'' @ CHR 0x22 # '': ['')]"
  | (failed) "r = Some (ErrorfW ''s.Writer.Write'' WriteError)" "s1 = s"
proof -
  obtain y w where W: "put (Bytes (CHR ''{'' # CHR 0x22 # ''tags'' @ CHR 0x22 # '': ['')) (Writer s) = (y, w)"
    by (cases "put (Bytes (CHR ''{'' # CHR 0x22 # ''tags'' @ CHR 0x22 # '': ['')) (Writer s)")
  from W show ?thesis
  proof (cases rule: put_cases)
    case ok
    with W assms show ?thesis by (intro that(1)) (auto simp: emitProlog_def Write_def)
  next
    case failed
    with W assms show ?thesis by (intro that(2)) (auto simp: emitProlog_def Write_def)
  qed
qed

lemma emitEpilog_cases:
  assumes "emitEpilog s = (r, s1)"
  obtains (ok) "r = None" "Decoder s1 = Decoder s"
      "written (Writer s1) = written (Writer s) @ [Bytes '']}'']"
  | (failed) "r = Some (ErrorfW ''s.Writer.Write'' WriteError)" "s1 = s"
proof -
  obtain y w where W: "put (Bytes '']}'') (Writer s) = (y, w)"
    by (cases "put (Bytes '']}'') (Writer s)")
  from W show ?thesis
  proof (cases rule: put_cases)
    case ok
    with W assms show ?thesis by (intro that(1)) (auto simp: emitEpilog_def Write_def)
  next
    case failed
    with W assms show ?thesis by (intro that(2)) (auto simp: emitEpilog_def Write_def)
  qed
qed

lemma streamActivity_records:
  assumes "Record t \<in> set (written (Writer (snd (snd (streamActivity (newStreamer rs b))))))"
  shows "record_from rs t"
proof -
  let ?s = "newStreamer rs b"
  obtain r s1 where P: "emitProlog ?s = (r, s1)" by (cases "emitProlog ?s")
  from P show ?thesis
  proof (cases rule: emitProlog_cases)
    case failed
    with P assms show ?thesis by (simp add: streamActivity_def newStreamer_def)
  next
    case ok
    obtain e s2 where S: "stream s1 = (e, s2)" by (cases "stream s1")
    from stream_written [OF S] ok obtain new where
      new: "written (Writer s2) = written (Writer s1) @ new"
        "\<forall>t. Record t \<in> set new \<longrightarrow> record_from rs t"
      by (auto simp: newStreamer_def NewDecoder_def)
    from ok new have in2: "Record t \<in> set (written (Writer s2)) \<Longrightarrow> record_from rs t"
      by (auto simp: newStreamer_def)
    show ?thesis
    proof (cases "errors_Is e EOF")
      case False
      with P ok S assms have "Record t \<in> set (written (Writer s2))"
        by (simp add: streamActivity_def)
      then show ?thesis by (rule in2)
    next
      case True
      obtain r3 s3 where E: "emitEpilog s2 = (r3, s3)" by (cases "emitEpilog s2")
      from True P ok S E assms have "Record t \<in> set (written (Writer s3))"
        by (auto simp: streamActivity_def split: option.splits)
      moreover from E have "set (written (Writer s3)) \<subseteq> insert (Bytes '']}'') (set (written (Writer s2)))"
        by (cases rule: emitEpilog_cases) auto
      ultimately have "Record t \<in> set (written (Writer s2))" by auto
      then show ?thesis by (rule in2)
    qed
  qed
qed
section \<open>The description map\<close>






section \<open>Decoding the tokens of a tag\<close>




section \<open>The claims\<close>

text \<open>
  C7. A successful \<^verbatim>\<open>search\<close> returns exactly one of the two fields set. The start element
  it returns is a token of the input whose name is the query's \<open>NamedStart\<close>; the end
  element it returns is a token of the input whose name is the query's \<open>NamedStart\<close> too,
  and then the query's \<open>NamedEnd\<close> is not empty. \<open>NamedEnd\<close> is read as a flag only: two
  queries with the same \<open>NamedStart\<close> whose \<open>NamedEnd\<close> are both empty or both not empty
  search alike.
\<close>

theorem search_one_match_close_by_NamedStart:
  assumes "search q d = (Inr res, d')"
  shows "(rNamedStart res = None) \<noteq> (rNamedEnd res = None) \<and>
    (rNamedStart res = Some (n, a) \<longrightarrow>
       n = NamedStart q \<and> NamedStart q \<noteq> '''' \<and>
       (\<exists>pre. input d = pre @ Tok (StartElement n a) # input d')) \<and>
    (rNamedEnd res = Some m \<longrightarrow>
       m = NamedStart q \<and> NamedEnd q \<noteq> '''' \<and>
       (\<exists>pre. input d = pre @ Tok (EndElement m) # input d')) \<and>
    (NamedStart q' = NamedStart q \<and> (NamedEnd q' = '''') = (NamedEnd q = '''') \<longrightarrow>
       search q' d = search q d)"
proof (intro conjI)
  from search_Inr [OF assms]
  show "(rNamedStart res = None) \<noteq> (rNamedEnd res = None)" by auto
  from search_Inr [OF assms]
  show "rNamedStart res = Some (n, a) \<longrightarrow>
           n = NamedStart q \<and> NamedStart q \<noteq> '''' \<and>
           (\<exists>pre. input d = pre @ Tok (StartElement n a) # input d')" by auto
  from search_Inr [OF assms]
  show "rNamedEnd res = Some m \<longrightarrow>
           m = NamedStart q \<and> NamedEnd q \<noteq> '''' \<and>
           (\<exists>pre. input d = pre @ Tok (EndElement m) # input d')" by auto
  show "NamedStart q' = NamedStart q \<and> (NamedEnd q' = '''') = (NamedEnd q = '''') \<longrightarrow>
           search q' d = search q d"
    by (auto intro: search_NamedEnd_flag)
qed

theorem search_one_match_close_by_NamedStart_witness:
  "search \<lparr>NamedStart = ''tag'', NamedEnd = ''table''\<rparr>
     \<lparr>input = [Tok (CharData ''x''), Tok (EndElement ''tag''), Tok (EndElement ''table'')],
      stk = [''tag'', ''table'']\<rparr>
   = (Inr \<lparr>rNamedStart = None, rNamedEnd = Some ''tag''\<rparr>,
      \<lparr>input = [Tok (EndElement ''table'')], stk = [''table'']\<rparr>)
   \<and> ''tag'' = NamedStart \<lparr>NamedStart = ''tag'', NamedEnd = ''table''\<rparr>
   \<and> NamedEnd \<lparr>NamedStart = ''tag'', NamedEnd = ''table''\<rparr> \<noteq> ''''"
proof -
  have h: "search \<lparr>NamedStart = ''tag'', NamedEnd = ''table''\<rparr>
     \<lparr>input = [Tok (CharData ''x''), Tok (EndElement ''tag''), Tok (EndElement ''table'')],
      stk = [''tag'', ''table'']\<rparr>
   = (Inr \<lparr>rNamedStart = None, rNamedEnd = Some ''tag''\<rparr>,
      \<lparr>input = [Tok (EndElement ''table'')], stk = [''table'']\<rparr>)"
    by (simp add: search.simps Token.simps)
  from search_one_match_close_by_NamedStart [OF h, of _ _ "''tag''"] h show ?thesis by simp
qed
text \<open>
  C1. The epilogue is not written when the input ends in the outer search for a table:
  \<^verbatim>\<open>stream\<close> wraps the error of that search with \<^verbatim>\<open>%v\<close>, so \<^verbatim>\<open>errors.Is\<close> does not find
  \<^verbatim>\<open>io.EOF\<close> in it (first input: no token at all). It is written when the input ends in the
  inner search for a tag, which the end of the table does not stop (second input: one
  empty table).
\<close>

theorem epilogue_on_inner_EOF_only:
  \<open>run_streamErr [] = ErrorfV ''search'' (ErrorfW ''decoder.Token'' EOF) \<and>
   run_written [] = [Bytes ''{"tags": ['']  \<and>
   run_streamErr [Tok (StartElement ''table'' [(''name'', ''A'')]), Tok (EndElement ''table'')] =
     ErrorfW ''s.streamTags'' (ErrorfW ''search'' (ErrorfW ''decoder.Token'' EOF)) \<and>
   run_written [Tok (StartElement ''table'' [(''name'', ''A'')]), Tok (EndElement ''table'')] =
     [Bytes ''{"tags": ['', Bytes '']}'']\<close>
  by code_simp

text \<open>
  C2. On an input with no table (here the XML declaration and a comment only) the sink
  holds the prologue alone and the goroutine reports an error.
\<close>

theorem no_table_truncated:
  \<open>run_bytes [Tok (ProcInst ''xml'' ''version="1.0"''), Tok (Comment ''no tables'')] =
     ''{"tags": ['' \<and>
   run_error [Tok (ProcInst ''xml'' ''version="1.0"''), Tok (Comment ''no tables'')] =
     Some (ErrorfW ''stream'' (ErrorfV ''search'' (ErrorfW ''decoder.Token'' EOF)))\<close>
  by code_simp

text \<open>
  C3. On the two tables \<^verbatim>\<open>A\<close> (tag \<^verbatim>\<open>x\<close>) and \<^verbatim>\<open>B\<close> (tag \<^verbatim>\<open>y\<close>), the record of \<^verbatim>\<open>y\<close> is written
  with the group \<^verbatim>\<open>A\<close> and the path \<^verbatim>\<open>A:y\<close>.
\<close>

theorem second_table_takes_first_group:
  \<open>run_error two_tables = None \<and>
   run_written two_tables =
     [Bytes ''{"tags": ['',
      Record \<lparr>Name = ''x'', Writable = True, Path = ''A:x'', Group = ''A'',
        Description = [\<lparr>Lang = ''en'', Value = ''X''\<rparr>], JSONDescription = [(''en'', ''X'')],
        Type = ''string''\<rparr>,
      Bytes '','',
      Record \<lparr>Name = ''y'', Writable = False, Path = ''A:y'', Group = ''A'',
        Description = [], JSONDescription = [], Type = ''int8u''\<rparr>,
      Bytes '']}'']\<close>
  by code_simp

text \<open>
  C4. On the document with no table inside its root element the sink holds the prologue
  alone, which is no JSON document, and the goroutine reports an error.
\<close>

theorem zero_tables_truncated:
  \<open>run_bytes (doc_tokens []) = ''{"tags": ['' \<and>
   run_error (doc_tokens []) =
     Some (ErrorfW ''stream'' (ErrorfV ''search'' (ErrorfW ''decoder.Token'' EOF)))\<close>
  by code_simp

text \<open>
  C6. A table with no \<^verbatim>\<open>name\<close> that follows a table is read by the inner search of the
  first one: no error is reported, its tag is written with the first table's name, and
  the epilogue is written.
\<close>

theorem unnamed_second_table_accepted:
  \<open>run_error second_table_unnamed = None \<and>
   run_written second_table_unnamed =
     [Bytes ''{"tags": ['',
      Record \<lparr>Name = ''y'', Writable = False, Path = ''A:y'', Group = ''A'',
        Description = [], JSONDescription = [], Type = ''''\<rparr>,
      Bytes '']}'']\<close>
  by code_simp
text \<open>
  C8. Every record written to the sink, on every input and whenever the sink fails, has
  \<open>Path = Group @ '':'' @ Name\<close>, where \<open>Name\<close> is the \<open>name\<close> attribute of a \<^verbatim>\<open>tag\<close> start element
  of the input.
\<close>

theorem path_is_group_colon_name:
  assumes "Record t \<in> set (written (Writer (snd (snd (streamActivity (newStreamer rs b))))))"
  shows "Path t = Group t @ '':'' @ Name t \<and>
    (\<exists>a. Tok (StartElement ''tag'' a) \<in> set rs \<and> Name t = attr_last ''name'' a '''')"
proof -
  from streamActivity_records [OF assms] obtain tn where "tag_from rs tn t"
    unfolding record_from_def by blast
  then show ?thesis unfolding tag_from_def tag_made_def by auto
qed

theorem path_is_group_colon_name_witness:
  "Record \<lparr>Name = ''y'', Writable = False, Path = ''A:y'', Group = ''A'', Description = [],
       JSONDescription = [], Type = ''int8u''\<rparr>
     \<in> set (written (Writer (snd (snd (streamActivity (newStreamer two_tables None)))))) \<and>
   Path \<lparr>Name = ''y'', Writable = False, Path = ''A:y'', Group = ''A'', Description = [],
       JSONDescription = [], Type = ''int8u''\<rparr> = ''A'' @ '':'' @ ''y''"
proof -
  have h: "Record \<lparr>Name = ''y'', Writable = False, Path = ''A:y'', Group = ''A'', Description = [],
       JSONDescription = [], Type = ''int8u''\<rparr>
     \<in> set (written (Writer (snd (snd (streamActivity (newStreamer two_tables None))))))"
    by code_simp
  from path_is_group_colon_name [OF h] h show ?thesis by simp
qed


end
